theory Spec2Isabelle
  imports Main
begin

section \<open>The battery listener of gps/android/utils/battery_listener.cpp\<close>

text \<open>
  The file holds one class, \<open>BatteryListenerImpl\<close>, a worker thread started by its
  \<open>init()\<close>, and a facade of free functions around one global listener. The class is a
  record, each member function a function on that record, and the worker thread a
  machine whose states are the places where the thread can be parked. What the
  threads do in which order is an input: a list of events.
\<close>

subsection \<open>Types\<close>

text \<open>\<open>android::hardware::health::V1_0::BatteryStatus\<close>.\<close>

datatype BatteryStatus = UNKNOWN | CHARGING | DISCHARGING | NOT_CHARGING | FULL

text \<open>\<open>android::hardware::health::V2_0::Result\<close>; the code only tests for \<open>SUCCESS\<close>.\<close>

datatype Result = SUCCESS | NOT_SUPPORTED | RESULT_UNKNOWN | NOT_FOUND | CALLBACK_DIED

text \<open>The values of \<open>status_t\<close> that the file returns (\<open>OK\<close> is \<open>NO_ERROR\<close>).\<close>

datatype status_t = NO_ERROR | NO_INIT | INVALID_OPERATION

text \<open>
  A service handle (\<open>sp<IHealth>\<close>) is the identity of the remote endpoint; a null
  \<open>sp\<close> is \<open>None\<close>. A callback (\<open>cb_fn_t\<close>) is known by its identity only.
\<close>

type_synonym handle = nat
type_synonym cb_fn_t = nat

text \<open>
  The worker thread, by the place where it stands. Between two of these places the
  thread holds \<open>mLock\<close>, so what it does from one to the next is one atomic step.
  \<^item> \<open>Starting\<close>: created, the lambda has not taken the lock yet;
  \<^item> \<open>InWait ls\<close>: parked in \<open>mCond.wait(l)\<close> with \<open>local_status = ls\<close>;
  \<^item> \<open>InGrace ls dl\<close>: parked in \<open>mCond.wait_for(l, 3s, ...)\<close>, which times out
    at clock value \<open>dl\<close> (milliseconds);
  \<^item> \<open>InCallback ls\<close>: between \<open>l.unlock()\<close> and \<open>l.lock()\<close>, running \<open>mCb(c)\<close>;
  \<^item> \<open>Exited\<close>: the loop has ended.
\<close>

datatype worker =
  Starting
  | InWait BatteryStatus
  | InGrace BatteryStatus nat
  | InCallback BatteryStatus
  | Exited

text \<open>The calls the listener makes on the health service and on the system.\<close>

datatype hal_call =
  GetService
  | Usleep nat
  | GetChargeStatus handle
  | RegisterCallback handle
  | LinkToDeath handle
  | UnregisterCallback handle
  | UnlinkToDeath handle

text \<open>
  The members of \<open>BatteryListenerImpl\<close> (\<open>mLock\<close> and \<open>mCond\<close> are in the step
  structure of the worker), and three fields of observation that are not in the C++
  object: the clock \<open>now\<close> in milliseconds, the list \<open>calls\<close> of the calls made so
  far, and the list \<open>emitted\<close> of the callback invocations made so far, each with the
  callback invoked, the clock value and the argument.
\<close>

record listener =
  mHealth :: "handle option"
  mStatus :: BatteryStatus
  mCb :: cb_fn_t
  mThread :: "worker option"
  mDone :: bool
  now :: nat
  calls :: "hal_call list"
  emitted :: "(cb_fn_t \<times> nat \<times> bool) list"

text \<open>
  How a call ends: it returns, it dereferences a null pointer (\<open>mHealth->\<close> on a null
  \<open>sp\<close>, \<open>mThread->\<close> on a null \<open>unique_ptr\<close>), or it never returns (a \<open>join()\<close> on a
  thread that nobody wakes).
\<close>

datatype 'a outcome = Returns 'a | NullDeref | Blocks

text \<open>
  What the health service answers during one run of \<open>init()\<close>: \<open>getService e k\<close> is
  the result of \<open>IHealth::getService()\<close> in the iteration with \<open>tries = k\<close>, and
  \<open>getChargeStatus e\<close> is the pair handed to the lambda of \<open>getChargeStatus\<close>, or
  \<open>None\<close> when the transaction fails and the lambda is not run.
\<close>

record env =
  getService :: "nat \<Rightarrow> handle option"
  getChargeStatus :: "(Result \<times> BatteryStatus) option"

subsection \<open>Constants\<close>

definition GET_HEALTH_SVC_RETRY_CNT :: nat where
  "GET_HEALTH_SVC_RETRY_CNT = 5"

definition GET_HEALTH_SVC_WAIT_TIME_MS :: nat where
  "GET_HEALTH_SVC_WAIT_TIME_MS = 500"

text \<open>The \<open>3s\<close> of \<open>mCond.wait_for\<close>, in milliseconds.\<close>

definition GRACE_MS :: nat where
  "GRACE_MS = 3000"

subsection \<open>The status slot\<close>

definition statusToBool :: "BatteryStatus \<Rightarrow> bool" where
  "statusToBool s = (s = CHARGING \<or> s = FULL)"

definition isCharging :: "listener \<Rightarrow> bool" where
  "isCharging l = statusToBool (mStatus l)"

text \<open>
  \<open>healthInfoChanged\<close> (and \<open>healthInfoChanged_2_1\<close>, which passes \<open>info.legacy\<close> on):
  the argument is \<open>info.legacy.batteryStatus\<close>. The \<open>notify_one()\<close> is the reason why
  the worker runs again; when it runs is an event of its own.
\<close>

definition healthInfoChanged :: "BatteryStatus \<Rightarrow> listener \<Rightarrow> listener" where
  "healthInfoChanged batteryStatus l =
     (if batteryStatus \<noteq> mStatus l then l\<lparr>mStatus := batteryStatus\<rparr> else l)"

definition healthInfoChanged_2_1 :: "BatteryStatus \<Rightarrow> listener \<Rightarrow> listener" where
  "healthInfoChanged_2_1 batteryStatus l = healthInfoChanged batteryStatus l"

subsection \<open>The worker thread\<close>

text \<open>
  The \<open>default:\<close> branch of the switch: compute \<open>c\<close>, unlock, call \<open>mCb(c)\<close>.
\<close>

definition default_case :: "BatteryStatus \<Rightarrow> listener \<Rightarrow> listener" where
  "default_case local_status l =
     l\<lparr>emitted := emitted l @ [(mCb l, now l, statusToBool local_status)],
       mThread := Some (InCallback local_status)\<rparr>"

text \<open>
  One pass from \<open>while (!mDone)\<close> to the next place where the thread parks. In the
  \<open>NOT_CHARGING\<close> case the predicate of \<open>wait_for\<close> is false when the wait begins
  (\<open>local_status\<close> has just been read from \<open>mStatus\<close> under the lock), so the thread
  parks there.
\<close>

definition loop_head :: "BatteryStatus \<Rightarrow> listener \<Rightarrow> listener" where
  "loop_head local_status l =
     (if mDone l then l\<lparr>mThread := Some Exited\<rparr>
      else if local_status = mStatus l then l\<lparr>mThread := Some (InWait local_status)\<rparr>
      else (case mStatus l of
              NOT_CHARGING \<Rightarrow> l\<lparr>mThread := Some (InGrace NOT_CHARGING (now l + GRACE_MS))\<rparr>
            | _ \<Rightarrow> default_case (mStatus l) l))"

text \<open>
  The worker runs from where it is parked to where it parks next. In \<open>wait_for\<close> the
  predicate \<open>mStatus != local_status\<close> is looked at first (true: \<open>break\<close>, back to the
  loop head); when it is false and the three seconds are over, control falls
  through to \<open>default:\<close>; otherwise the thread keeps waiting. A turn taken in
  \<open>mCond.wait\<close> with nothing changed goes round the loop and parks again.
\<close>

definition worker_step :: "listener \<Rightarrow> listener" where
  "worker_step l =
     (case mThread l of
        None \<Rightarrow> l
      | Some Starting \<Rightarrow> loop_head (mStatus l) l
      | Some (InWait local_status) \<Rightarrow> loop_head local_status l
      | Some (InGrace local_status deadline) \<Rightarrow>
          (if mStatus l \<noteq> local_status then loop_head local_status l
           else if deadline \<le> now l then default_case local_status l
           else l)
      | Some (InCallback local_status) \<Rightarrow> loop_head local_status l
      | Some Exited \<Rightarrow> l)"

subsection \<open>Runs\<close>

text \<open>
  What happens to a listener, in the order in which it takes the lock: a push update
  from the binder thread, a turn of the worker thread, or time passing. Teardown and
  service death are not among the events: a run is a stretch in the life of a
  listener during which neither happens.
\<close>

datatype event = Push BatteryStatus | Wake | Tick nat

fun deliver :: "event \<Rightarrow> listener \<Rightarrow> listener" where
  "deliver (Push batteryStatus) l = healthInfoChanged batteryStatus l"
| "deliver Wake l = worker_step l"
| "deliver (Tick d) l = l\<lparr>now := now l + d\<rparr>"

fun run :: "listener \<Rightarrow> event list \<Rightarrow> listener" where
  "run l [] = l"
| "run l (e # es) = run (deliver e l) es"

fun is_push :: "event \<Rightarrow> bool" where
  "is_push (Push _) = True"
| "is_push _ = False"

text \<open>The time that passes during a list of events.\<close>

fun elapsed :: "event list \<Rightarrow> nat" where
  "elapsed [] = 0"
| "elapsed (Tick d # es) = d + elapsed es"
| "elapsed (_ # es) = elapsed es"

text \<open>The arguments of the callback invocations, in order.\<close>

definition cb_values :: "listener \<Rightarrow> bool list" where
  "cb_values l = map (\<lambda>(f, t, c). c) (emitted l)"

text \<open>The worker's variable \<open>local_status\<close>, where it has a value.\<close>

fun seen :: "worker \<Rightarrow> BatteryStatus option" where
  "seen Starting = None"
| "seen (InWait ls) = Some ls"
| "seen (InGrace ls dl) = Some ls"
| "seen (InCallback ls) = Some ls"
| "seen Exited = None"

fun is_tick :: "event \<Rightarrow> bool" where
  "is_tick (Tick _) = True"
| "is_tick _ = False"

text \<open>
  The worker is in its loop with \<open>local_status = ls\<close> and not inside \<open>wait_for\<close>: parked
  in \<open>mCond.wait\<close>, or on its way back from a callback.
\<close>

definition parked_on :: "BatteryStatus \<Rightarrow> listener \<Rightarrow> bool" where
  "parked_on ls l = (mThread l = Some (InWait ls) \<or> mThread l = Some (InCallback ls))"

text \<open>
  The worker has nothing to report: it runs, and it has seen the status that is stored
  (or it has not started, and will read that status first).
\<close>

definition settled :: "listener \<Rightarrow> bool" where
  "settled l = (\<not> mDone l \<and> (mThread l = Some Starting \<or> parked_on (mStatus l) l))"

text \<open>The worker is inside \<open>wait_for\<close>.\<close>

definition in_wait_for :: "listener \<Rightarrow> bool" where
  "in_wait_for l = (case mThread l of Some (InGrace ls dl) \<Rightarrow> True | _ \<Rightarrow> False)"

text \<open>
  The worker is inside \<open>wait_for\<close> with deadline \<open>dl\<close>, and the status it waits on is
  still the stored one.
\<close>

definition in_grace :: "BatteryStatus \<Rightarrow> nat \<Rightarrow> listener \<Rightarrow> bool" where
  "in_grace ls dl l = (\<not> mDone l \<and> mThread l = Some (InGrace ls dl) \<and> mStatus l = ls)"

subsection \<open>Acquisition: \<open>init()\<close> and the constructor\<close>

text \<open>
  The \<open>do ... while (tries < GET_HEALTH_SVC_RETRY_CNT)\<close> loop. It returns the final
  value of \<open>tries\<close> with the listener.
\<close>

function getServiceLoop :: "env \<Rightarrow> nat \<Rightarrow> listener \<Rightarrow> nat \<times> listener" where
  "getServiceLoop e tries l =
     (case getService e tries of
        Some h \<Rightarrow> (tries, l\<lparr>mHealth := Some h, calls := calls l @ [GetService]\<rparr>)
      | None \<Rightarrow>
          (if tries + 1 < GET_HEALTH_SVC_RETRY_CNT
           then getServiceLoop e (tries + 1)
                  (l\<lparr>mHealth := None, now := now l + GET_HEALTH_SVC_WAIT_TIME_MS,
                     calls := calls l @ [GetService, Usleep (GET_HEALTH_SVC_WAIT_TIME_MS * 1000)]\<rparr>)
           else (tries + 1,
                 l\<lparr>mHealth := None, now := now l + GET_HEALTH_SVC_WAIT_TIME_MS,
                   calls := calls l @ [GetService, Usleep (GET_HEALTH_SVC_WAIT_TIME_MS * 1000)]\<rparr>)))"
  by pat_completeness auto
termination
  by (relation "measure (\<lambda>(e, tries, l). GET_HEALTH_SVC_RETRY_CNT - tries)") auto

definition init :: "env \<Rightarrow> listener \<Rightarrow> status_t \<times> listener" where
  "init e l =
     (if mHealth l \<noteq> None then (INVALID_OPERATION, l)
      else
        (let l1 = snd (getServiceLoop e 0 l) in
         case mHealth l1 of
           None \<Rightarrow> (NO_INIT, l1)
         | Some h \<Rightarrow>
             (let l2 = l1\<lparr>mStatus := UNKNOWN, calls := calls l1 @ [GetChargeStatus h]\<rparr>;
                  l3 = (case getChargeStatus e of
                          Some (SUCCESS, status) \<Rightarrow> l2\<lparr>mStatus := status\<rparr>
                        | _ \<Rightarrow> l2);
                  l4 = l3\<lparr>mDone := False\<rparr>;
                  l5 = l4\<lparr>mThread := Some Starting\<rparr>;
                  l6 = l5\<lparr>calls := calls l5 @ [RegisterCallback h]\<rparr>;
                  l7 = l6\<lparr>calls := calls l6 @ [LinkToDeath h]\<rparr>
              in (NO_ERROR, l7))))"

text \<open>
  The constructor: \<open>mCb(cb)\<close>, then \<open>init()\<close>, whose status it drops. \<open>raw\<close> is the
  object as allocated: \<open>mHealth\<close> and \<open>mThread\<close> are default-constructed (null), while
  \<open>mStatus\<close> and \<open>mDone\<close> have no initialiser and keep what \<open>raw\<close> holds.
\<close>

definition BatteryListenerImpl :: "env \<Rightarrow> cb_fn_t \<Rightarrow> listener \<Rightarrow> listener" where
  "BatteryListenerImpl e cb raw =
     snd (init e (raw\<lparr>mHealth := None, mThread := None, mCb := cb\<rparr>))"

subsection \<open>Teardown and service death\<close>

text \<open>
  \<open>mThread->join()\<close>, called after \<open>mDone = true\<close>: the caller waits until the worker
  has left its loop, and no push update arrives meanwhile. \<open>notified\<close> says whether
  the caller has called \<open>mCond.notify_one()\<close> before.
  \<^item> A worker that is not parked (\<open>Starting\<close>, \<open>InCallback\<close>) reaches
    \<open>while (!mDone)\<close> and leaves.
  \<^item> A worker parked in \<open>mCond.wait\<close> leaves when it has been notified, by the caller
    or by the push update that made \<open>mStatus\<close> differ from \<open>local_status\<close>;
    otherwise nothing wakes it and the join does not return.
  \<^item> A worker parked in \<open>wait_for\<close> leaves at once when the predicate holds; otherwise
    it waits for the deadline, falls through to \<open>default:\<close>, makes its callback and
    then leaves.
\<close>

definition join :: "bool \<Rightarrow> listener \<Rightarrow> listener outcome" where
  "join notified l =
     (case mThread l of
        None \<Rightarrow> NullDeref
      | Some Starting \<Rightarrow> Returns (l\<lparr>mThread := Some Exited\<rparr>)
      | Some (InWait local_status) \<Rightarrow>
          (if notified \<or> local_status \<noteq> mStatus l
           then Returns (l\<lparr>mThread := Some Exited\<rparr>) else Blocks)
      | Some (InGrace local_status deadline) \<Rightarrow>
          (if mStatus l \<noteq> local_status then Returns (l\<lparr>mThread := Some Exited\<rparr>)
           else Returns ((default_case local_status (l\<lparr>now := max (now l) deadline\<rparr>))
                           \<lparr>mThread := Some Exited\<rparr>))
      | Some (InCallback local_status) \<Rightarrow> Returns (l\<lparr>mThread := Some Exited\<rparr>)
      | Some Exited \<Rightarrow> Returns l)"

text \<open>
  The destructor. \<open>unregisterCallback\<close> is guarded by \<open>mHealth != NULL\<close>;
  \<open>unlinkToDeath\<close> is called through \<open>mHealth\<close> without a guard, and \<open>join\<close> through
  \<open>mThread\<close> without one. No \<open>notify_one()\<close> precedes the join.
\<close>

definition destructor :: "listener \<Rightarrow> listener outcome" where
  "destructor l =
     (let l1 = (case mHealth l of
                  Some h \<Rightarrow> l\<lparr>calls := calls l @ [UnregisterCallback h]\<rparr>
                | None \<Rightarrow> l)
      in case mHealth l1 of
           None \<Rightarrow> NullDeref
         | Some h \<Rightarrow>
             (let l2 = l1\<lparr>calls := calls l1 @ [UnlinkToDeath h]\<rparr>;
                  l3 = l2\<lparr>mDone := True\<rparr>
              in join False l3))"

text \<open>
  Modelled from the spec: \<open>android::hardware::interfacesEqual\<close>, which is not in this
  repository. The spec calls it an identity check of the handle against the endpoint
  that the notification reports; \<open>who\<close> is the result of \<open>who.promote()\<close>.
\<close>

definition interfacesEqual :: "handle option \<Rightarrow> handle option \<Rightarrow> bool" where
  "interfacesEqual left right = (left = right)"

text \<open>
  \<open>serviceDied\<close>; \<open>e\<close> is what the health service answers to the \<open>init()\<close> at its end.
\<close>

definition serviceDied :: "env \<Rightarrow> handle option \<Rightarrow> listener \<Rightarrow> listener outcome" where
  "serviceDied e who l =
     (if mHealth l = None \<or> \<not> interfacesEqual (mHealth l) who then Returns l
      else
        (let l1 = l\<lparr>mDone := True\<rparr>;
             l2 = l1\<lparr>mHealth := None\<rparr>
         in case join True l2 of
              Returns l3 \<Rightarrow> Returns (snd (init e l3))
            | NullDeref \<Rightarrow> NullDeref
            | Blocks \<Rightarrow> Blocks))"

subsection \<open>The facade\<close>

text \<open>
  The two globals, \<open>sIsBatteryListened\<close> and \<open>batteryListener\<close>, and the detached
  threads \<open>t1\<close> that have been created and have not run yet, each with the callback it
  was given.
\<close>

record globals =
  sIsBatteryListened :: bool
  batteryListener :: "listener option"
  detached :: "cb_fn_t list"

definition batteryPropertiesListenerIsCharging :: "globals \<Rightarrow> bool outcome" where
  "batteryPropertiesListenerIsCharging g =
     (case batteryListener g of
        None \<Rightarrow> NullDeref
      | Some l \<Rightarrow> Returns (isCharging l))"

text \<open>
  Giving \<open>batteryListener\<close> a new value releases the listener it held. The facade is
  taken to hold the only strong reference, so the release runs the destructor.
\<close>

definition release :: "listener option \<Rightarrow> unit outcome" where
  "release p =
     (case p of
        None \<Rightarrow> Returns ()
      | Some old \<Rightarrow>
          (case destructor old of
             Returns _ \<Rightarrow> Returns ()
           | NullDeref \<Rightarrow> NullDeref
           | Blocks \<Rightarrow> Blocks))"

text \<open>
  \<open>batteryPropertiesListenerInit\<close>. \<open>raw\<close> is the memory that \<open>new\<close> hands to the
  constructor. The listener is built first; the assignment then releases the old one.
  The constructor has started the worker thread and registered for push updates, so
  from then on the binder thread and the worker run beside this function:
  \<open>before_read\<close> are their events between the constructor and the read of
  \<open>isCharging()\<close>, \<open>before_call\<close> those between that read and the call
  \<open>cb(isCharging)\<close>. (Events inside the constructor, after the thread is created, act
  as if they came right after it: the rest of the constructor only makes calls on
  the service.) The call \<open>cb(isCharging)\<close> is recorded in the field \<open>emitted\<close> of
  the new listener.
\<close>

definition batteryPropertiesListenerInit ::
  "env \<Rightarrow> listener \<Rightarrow> cb_fn_t \<Rightarrow> event list \<Rightarrow> event list \<Rightarrow> globals
     \<Rightarrow> (status_t \<times> globals) outcome" where
  "batteryPropertiesListenerInit e raw cb before_read before_call g =
     (let l = BatteryListenerImpl e cb raw in
      case release (batteryListener g) of
        NullDeref \<Rightarrow> NullDeref
      | Blocks \<Rightarrow> Blocks
      | Returns _ \<Rightarrow>
          (let g1 = g\<lparr>batteryListener := Some (run l before_read)\<rparr> in
           case batteryPropertiesListenerIsCharging g1 of
             NullDeref \<Rightarrow> NullDeref
           | Blocks \<Rightarrow> Blocks
           | Returns c \<Rightarrow>
               (let l2 = run (run l before_read) before_call in
                Returns (NO_ERROR,
                  g\<lparr>batteryListener :=
                      Some (if c then l2\<lparr>emitted := emitted l2 @ [(cb, now l2, c)]\<rparr>
                            else l2)\<rparr>))))"

definition batteryPropertiesListenerDeinit :: "globals \<Rightarrow> (status_t \<times> globals) outcome" where
  "batteryPropertiesListenerDeinit g =
     (case release (batteryListener g) of
        NullDeref \<Rightarrow> NullDeref
      | Blocks \<Rightarrow> Blocks
      | Returns _ \<Rightarrow> Returns (NO_ERROR, g\<lparr>batteryListener := None\<rparr>))"

text \<open>
  \<open>loc_extn_battery_properties_listener_init\<close>: the thread \<open>t1\<close> is created and
  detached, and the flag is set; the thread runs later.
\<close>

definition loc_extn_battery_properties_listener_init :: "cb_fn_t \<Rightarrow> globals \<Rightarrow> globals" where
  "loc_extn_battery_properties_listener_init fn g =
     (if \<not> sIsBatteryListened g
      then g\<lparr>detached := detached g @ [fn], sIsBatteryListened := True\<rparr>
      else g)"

text \<open>
  The oldest detached thread runs: \<open>batteryPropertiesListenerInit\<close> with its callback,
  and with the events that fall into it.
\<close>

definition run_detached ::
  "env \<Rightarrow> listener \<Rightarrow> event list \<Rightarrow> event list \<Rightarrow> globals \<Rightarrow> globals outcome" where
  "run_detached e raw before_read before_call g =
     (case detached g of
        [] \<Rightarrow> Returns g
      | fn # rest \<Rightarrow>
          (case batteryPropertiesListenerInit e raw fn before_read before_call
                  (g\<lparr>detached := rest\<rparr>) of
             Returns (r, g') \<Rightarrow> Returns g'
           | NullDeref \<Rightarrow> NullDeref
           | Blocks \<Rightarrow> Blocks))"

definition loc_extn_battery_properties_listener_deinit :: "globals \<Rightarrow> globals outcome" where
  "loc_extn_battery_properties_listener_deinit g =
     (case batteryPropertiesListenerDeinit g of
        Returns (r, g') \<Rightarrow> Returns g'
      | NullDeref \<Rightarrow> NullDeref
      | Blocks \<Rightarrow> Blocks)"

definition loc_extn_battery_properties_is_charging :: "globals \<Rightarrow> bool outcome" where
  "loc_extn_battery_properties_is_charging g = batteryPropertiesListenerIsCharging g"

subsection \<open>Example inputs\<close>

text \<open>
  Freshly allocated memory for a listener at clock 0 with nothing observed, a health
  service that answers the first \<open>getService()\<close> with handle 1 and reports a given
  status, and a health service that is not there.
\<close>

definition blank :: listener where
  "blank = \<lparr>mHealth = None, mStatus = UNKNOWN, mCb = 0, mThread = None, mDone = False,
             now = 0, calls = [], emitted = []\<rparr>"

definition healthy :: "BatteryStatus \<Rightarrow> env" where
  "healthy st = \<lparr>getService = (\<lambda>k. Some 1), getChargeStatus = Some (SUCCESS, st)\<rparr>"

definition no_service :: env where
  "no_service = \<lparr>getService = (\<lambda>k. None), getChargeStatus = None\<rparr>"

text \<open>
  A listener built with callback 7 on a health service that reports \<open>CHARGING\<close>, after
  the first turn of its worker: the worker has read \<open>CHARGING\<close> and waits.
\<close>

definition charging_listener :: listener where
  "charging_listener = run (BatteryListenerImpl (healthy CHARGING) 7 blank) [Wake]"

text \<open>
  The globals when the process starts; after
  \<open>loc_extn_battery_properties_listener_init\<close> with callback 7 and the run of its
  thread, on a health service that reports \<open>CHARGING\<close>, with no event of another
  thread in between; and after
  \<open>loc_extn_battery_properties_listener_deinit\<close> has returned from there.
\<close>

definition no_globals :: globals where
  "no_globals = \<lparr>sIsBatteryListened = False, batteryListener = None, detached = []\<rparr>"

definition started_globals :: globals where
  "started_globals =
     \<lparr>sIsBatteryListened = True,
      batteryListener =
        Some ((BatteryListenerImpl (healthy CHARGING) 7 blank)\<lparr>emitted := [(7, 0, True)]\<rparr>),
      detached = []\<rparr>"

definition stopped_globals :: globals where
  "stopped_globals = \<lparr>sIsBatteryListened = True, batteryListener = None, detached = []\<rparr>"

section \<open>Properties\<close>

subsection \<open>Acquisition\<close>

declare getServiceLoop.simps [simp del]

lemma getServiceLoop_none:
  assumes "\<forall>k<5. getService e k = None"
  shows "i < 5 \<Longrightarrow> getServiceLoop e i l =
     (5, l\<lparr>mHealth := None, now := now l + 500 * (5 - i),
          calls := calls l @ concat (replicate (5 - i) [GetService, Usleep 500000])\<rparr>)"
proof (induction "4 - i" arbitrary: i l)
  case 0
  then have i: "i = 4" by simp
  have none: "getService e 4 = None" using assms by simp
  show ?case
    unfolding i
    by (subst getServiceLoop.simps)
       (simp add: none GET_HEALTH_SVC_RETRY_CNT_def GET_HEALTH_SVC_WAIT_TIME_MS_def)
next
  case (Suc d)
  then have lt: "i + 1 < 5" and d: "d = 4 - (i + 1)" by simp_all
  have none: "getService e i = None" using assms lt by simp
  have cnt: "i + 1 < GET_HEALTH_SVC_RETRY_CNT"
    using lt by (simp add: GET_HEALTH_SVC_RETRY_CNT_def)
  have sd: "5 - i = Suc (5 - (i + 1))" using lt by simp
  show ?case
    apply (subst getServiceLoop.simps)
    apply (simp only: none option.simps cnt if_True)
    apply (subst Suc.hyps(1)[OF d lt])
    apply (subst sd)+
    apply (simp add: GET_HEALTH_SVC_WAIT_TIME_MS_def)
    done
qed

lemma getServiceLoop_found:
  assumes "n < 5" "\<forall>k<n. getService e k = None" "getService e n = Some h"
  shows "i \<le> n \<Longrightarrow> getServiceLoop e i l =
     (n, l\<lparr>mHealth := Some h, now := now l + 500 * (n - i),
          calls := calls l @ concat (replicate (n - i) [GetService, Usleep 500000]) @ [GetService]\<rparr>)"
proof (induction "n - i" arbitrary: i l)
  case 0
  then have "i = n" by simp
  then show ?case
    by (subst getServiceLoop.simps) (simp add: assms)
next
  case (Suc d)
  then have lt: "i < n" and d: "d = n - (i + 1)" and le: "i + 1 \<le> n" by simp_all
  have none: "getService e i = None" using assms(2) lt by simp
  have cnt: "i + 1 < GET_HEALTH_SVC_RETRY_CNT"
    using lt assms(1) by (simp add: GET_HEALTH_SVC_RETRY_CNT_def)
  have sd: "n - i = Suc (n - (i + 1))" using lt by simp
  show ?case
    apply (subst getServiceLoop.simps)
    apply (simp only: none option.simps cnt if_True)
    apply (subst Suc.hyps(1)[OF d le])
    apply (subst sd)+
    apply (simp add: GET_HEALTH_SVC_WAIT_TIME_MS_def)
    done
qed

lemma null_handle_update: "mHealth l = None \<Longrightarrow> l\<lparr>mHealth := None\<rparr> = l"
  by (cases l) simp

lemma init_exhausted:
  assumes "mHealth l = None" "\<forall>k<5. getService e k = None"
  shows "init e l =
     (NO_INIT, l\<lparr>now := now l + 2500,
                 calls := calls l @ concat (replicate 5 [GetService, Usleep 500000])\<rparr>)"
proof -
  have "getServiceLoop e 0 l =
     (5, (l\<lparr>mHealth := None\<rparr>)\<lparr>now := now l + 2500,
          calls := calls l @ concat (replicate 5 [GetService, Usleep 500000])\<rparr>)"
    using getServiceLoop_none[OF assms(2), of 0 l] by simp
  then show ?thesis
    unfolding null_handle_update[OF assms(1)]
    by (simp add: init_def assms(1))
qed

lemma init_found:
  assumes "mHealth l = None" "n < 5" "\<forall>k<n. getService e k = None" "getService e n = Some h"
  shows "init e l =
     (NO_ERROR,
      l\<lparr>mHealth := Some h,
        mStatus := (case getChargeStatus e of Some (SUCCESS, status) \<Rightarrow> status | _ \<Rightarrow> UNKNOWN),
        mThread := Some Starting,
        mDone := False,
        now := now l + 500 * n,
        calls := calls l @ concat (replicate n [GetService, Usleep 500000]) @
                 [GetService, GetChargeStatus h, RegisterCallback h, LinkToDeath h]\<rparr>)"
  using getServiceLoop_found[OF assms(2,3,4), of 0 l]
  by (simp add: init_def assms(1) split: option.splits prod.splits Result.splits)

text \<open>
  C7. Acquisition calls \<open>getService()\<close> at most five times and sleeps 500 ms after each
  call that gave no handle. When all five calls give no handle, \<open>init()\<close> returns
  \<open>NO_INIT\<close> and has done nothing else: no \<open>registerCallback\<close>, no \<open>linkToDeath\<close>,
  no thread, no sixth call. When the call with \<open>tries = n\<close> is the first to give a
  handle, the calls before it are \<open>n\<close> pairs of \<open>getService()\<close> and \<open>usleep(500000)\<close>.
\<close>

theorem init_retries_five_times:
  assumes "mHealth l = None"
  shows "((\<forall>k<5. getService e k = None) \<longrightarrow>
            init e l =
              (NO_INIT, l\<lparr>now := now l + 2500,
                          calls := calls l @ concat (replicate 5 [GetService, Usleep 500000])\<rparr>))
       \<and> (\<forall>n h. n < 5 \<and> (\<forall>k<n. getService e k = None) \<and> getService e n = Some h \<longrightarrow>
            fst (init e l) = NO_ERROR
          \<and> now (snd (init e l)) = now l + 500 * n
          \<and> calls (snd (init e l)) =
              calls l @ concat (replicate n [GetService, Usleep 500000]) @
              [GetService, GetChargeStatus h, RegisterCallback h, LinkToDeath h])"
proof (intro conjI allI impI)
  assume "\<forall>k<5. getService e k = None"
  then show "init e l =
              (NO_INIT, l\<lparr>now := now l + 2500,
                          calls := calls l @ concat (replicate 5 [GetService, Usleep 500000])\<rparr>)"
    by (rule init_exhausted[OF assms])
next
  fix n h
  assume a: "n < 5 \<and> (\<forall>k<n. getService e k = None) \<and> getService e n = Some h"
  then have i: "init e l =
     (NO_ERROR,
      l\<lparr>mHealth := Some h,
        mStatus := (case getChargeStatus e of Some (SUCCESS, status) \<Rightarrow> status | _ \<Rightarrow> UNKNOWN),
        mThread := Some Starting,
        mDone := False,
        now := now l + 500 * n,
        calls := calls l @ concat (replicate n [GetService, Usleep 500000]) @
                 [GetService, GetChargeStatus h, RegisterCallback h, LinkToDeath h]\<rparr>)"
    using init_found[OF assms, of n e h] by blast
  show "fst (init e l) = NO_ERROR" by (simp add: i)
  show "now (snd (init e l)) = now l + 500 * n" by (simp add: i)
  show "calls (snd (init e l)) =
              calls l @ concat (replicate n [GetService, Usleep 500000]) @
              [GetService, GetChargeStatus h, RegisterCallback h, LinkToDeath h]"
    by (simp add: i)
qed

lemma replicate_5: "replicate 5 x = [x, x, x, x, x]"
  by (simp add: numeral_eq_Suc)

theorem init_retries_five_times_witness:
  "init no_service blank =
     (NO_INIT,
      blank\<lparr>now := 2500,
            calls := [GetService, Usleep 500000, GetService, Usleep 500000, GetService,
                      Usleep 500000, GetService, Usleep 500000, GetService, Usleep 500000]\<rparr>)
   \<and> mThread (snd (init no_service blank)) = None
   \<and> fst (init (healthy FULL) blank) = NO_ERROR
   \<and> calls (snd (init (healthy FULL) blank)) =
       [GetService, GetChargeStatus 1, RegisterCallback 1, LinkToDeath 1]"
proof -
  have b: "mHealth blank = None" by (simp add: blank_def)
  have n: "\<forall>k<5. getService no_service k = None" by (simp add: no_service_def)
  have h: "(0::nat) < 5 \<and> (\<forall>k<0. getService (healthy FULL) k = None)
           \<and> getService (healthy FULL) 0 = Some 1"
    by (simp add: healthy_def)
  from init_retries_five_times[OF b, of no_service] n
  have 1: "init no_service blank =
     (NO_INIT, blank\<lparr>now := now blank + 2500,
        calls := calls blank @ concat (replicate 5 [GetService, Usleep 500000])\<rparr>)"
    by blast
  from init_retries_five_times[OF b, of "healthy FULL"] h
  have 2: "fst (init (healthy FULL) blank) = NO_ERROR
          \<and> now (snd (init (healthy FULL) blank)) = now blank + 500 * 0
          \<and> calls (snd (init (healthy FULL) blank)) =
              calls blank @ concat (replicate 0 [GetService, Usleep 500000]) @
              [GetService, GetChargeStatus 1, RegisterCallback 1, LinkToDeath 1]"
    by blast
  show ?thesis
    using 2 by (simp add: 1 replicate_5) (simp add: blank_def)
qed

subsection \<open>Teardown after a failed acquisition\<close>

lemma BatteryListenerImpl_exhausted:
  assumes "\<forall>k<5. getService e k = None"
  shows "BatteryListenerImpl e cb raw =
     raw\<lparr>mHealth := None, mThread := None, mCb := cb, now := now raw + 2500,
         calls := calls raw @ concat (replicate 5 [GetService, Usleep 500000])\<rparr>"
  by (simp add: BatteryListenerImpl_def init_exhausted[OF _ assms])

text \<open>
  C5. When no health service is found, the constructor leaves \<open>mHealth\<close> and \<open>mThread\<close>
  null. The destructor of that listener skips \<open>unregisterCallback\<close> and then calls
  \<open>unlinkToDeath\<close> through the null \<open>mHealth\<close>: it applies a teardown step to an
  absent handle.
\<close>

theorem destructor_after_failed_acquisition:
  "destructor (BatteryListenerImpl \<lparr>getService = (\<lambda>k. None), getChargeStatus = c\<rparr> cb raw)
     = NullDeref
   \<and> mHealth (BatteryListenerImpl \<lparr>getService = (\<lambda>k. None), getChargeStatus = c\<rparr> cb raw)
     = None
   \<and> mThread (BatteryListenerImpl \<lparr>getService = (\<lambda>k. None), getChargeStatus = c\<rparr> cb raw)
     = None"
proof -
  have "\<forall>k<5. getService \<lparr>getService = (\<lambda>k. None), getChargeStatus = c\<rparr> k = None"
    by simp
  from BatteryListenerImpl_exhausted[OF this, of cb raw]
  show ?thesis by (simp add: destructor_def)
qed

subsection \<open>Death notifications\<close>

text \<open>
  C8. A death notification that arrives when no handle is held, or whose endpoint is
  not the handle held, is ignored: \<open>serviceDied\<close> returns and the listener is as it was.
\<close>

theorem serviceDied_ignores_unknown:
  "mHealth l = None \<or> \<not> interfacesEqual (mHealth l) who \<Longrightarrow> serviceDied e who l = Returns l"
  by (auto simp add: serviceDied_def)

theorem serviceDied_ignores_unknown_witness:
  "serviceDied no_service (Some 2) (BatteryListenerImpl (healthy CHARGING) 7 blank)
     = Returns (BatteryListenerImpl (healthy CHARGING) 7 blank)
   \<and> mHealth (BatteryListenerImpl (healthy CHARGING) 7 blank) = Some 1
   \<and> serviceDied (healthy CHARGING) (Some 1) (BatteryListenerImpl no_service 7 blank)
     = Returns (BatteryListenerImpl no_service 7 blank)
   \<and> mHealth (BatteryListenerImpl no_service 7 blank) = None"
proof -
  have h: "(0::nat) < 5" "\<forall>k<0. getService (healthy CHARGING) k = None"
    "getService (healthy CHARGING) 0 = Some 1"
    by (simp_all add: healthy_def)
  have a: "mHealth (BatteryListenerImpl (healthy CHARGING) 7 blank) = Some 1"
    by (simp add: BatteryListenerImpl_def init_found[OF _ h])
  have n: "\<forall>k<5. getService no_service k = None" by (simp add: no_service_def)
  have b: "mHealth (BatteryListenerImpl no_service 7 blank) = None"
    by (simp add: BatteryListenerImpl_exhausted[OF n])
  have 1: "mHealth (BatteryListenerImpl (healthy CHARGING) 7 blank) = None
      \<or> \<not> interfacesEqual (mHealth (BatteryListenerImpl (healthy CHARGING) 7 blank)) (Some 2)"
    by (simp add: a interfacesEqual_def)
  have 2: "mHealth (BatteryListenerImpl no_service 7 blank) = None
      \<or> \<not> interfacesEqual (mHealth (BatteryListenerImpl no_service 7 blank)) (Some 1)"
    by (simp add: b)
  show ?thesis
    using serviceDied_ignores_unknown[OF 1, of no_service]
      serviceDied_ignores_unknown[OF 2, of "healthy CHARGING"] a b
    by simp
qed

subsection \<open>The facade\<close>

text \<open>
  C10. \<open>batteryPropertiesListenerInit\<close> returns \<open>NO_ERROR\<close> whatever the callback,
  whatever the health service does and whatever the other threads do meanwhile: called with no listener held it returns, and a
  call that returns never returns another status. This is so also when all five
  \<open>getService()\<close> calls fail and the \<open>init()\<close> inside the constructor returns \<open>NO_INIT\<close>.
\<close>

theorem batteryPropertiesListenerInit_NO_ERROR:
  "(batteryListener g = None \<longrightarrow>
      (\<exists>g'. batteryPropertiesListenerInit e raw cb es1 es2 g = Returns (NO_ERROR, g')))
   \<and> (\<forall>r g'. batteryPropertiesListenerInit e raw cb es1 es2 g = Returns (r, g')
         \<longrightarrow> r = NO_ERROR)
   \<and> ((\<forall>k<5. getService e k = None) \<longrightarrow>
        fst (init e (raw\<lparr>mHealth := None, mThread := None, mCb := cb\<rparr>)) = NO_INIT)"
proof (intro conjI allI impI)
  assume "batteryListener g = None"
  then show "\<exists>g'. batteryPropertiesListenerInit e raw cb es1 es2 g = Returns (NO_ERROR, g')"
    by (simp add: batteryPropertiesListenerInit_def release_def
        batteryPropertiesListenerIsCharging_def Let_def)
next
  fix r g'
  assume "batteryPropertiesListenerInit e raw cb es1 es2 g = Returns (r, g')"
  then show "r = NO_ERROR"
    by (simp add: batteryPropertiesListenerInit_def batteryPropertiesListenerIsCharging_def
        Let_def split: outcome.splits)
next
  assume "\<forall>k<5. getService e k = None"
  then show "fst (init e (raw\<lparr>mHealth := None, mThread := None, mCb := cb\<rparr>)) = NO_INIT"
    by (simp add: init_exhausted)
qed

theorem batteryPropertiesListenerInit_NO_ERROR_witness:
  "(\<exists>g'. batteryPropertiesListenerInit no_service blank 7 [Wake] [Tick 1] no_globals
           = Returns (NO_ERROR, g'))
   \<and> fst (init no_service (blank\<lparr>mHealth := None, mThread := None, mCb := 7\<rparr>)) = NO_INIT"
proof -
  have 1: "batteryListener no_globals = None" by (simp add: no_globals_def)
  have 2: "\<forall>k<5. getService no_service k = None" by (simp add: no_service_def)
  show ?thesis
    using batteryPropertiesListenerInit_NO_ERROR
      [where g = no_globals and e = no_service and raw = blank and cb = 7
         and ?es1.0 = "[Wake]" and ?es2.0 = "[Tick 1]"] 1 2
    by blast
qed

subsection \<open>The point query\<close>

lemma BatteryListenerImpl_healthy:
  "BatteryListenerImpl (healthy st) cb blank =
     \<lparr>mHealth = Some 1, mStatus = st, mCb = cb, mThread = Some Starting, mDone = False,
      now = 0, calls = [GetService, GetChargeStatus 1, RegisterCallback 1, LinkToDeath 1],
      emitted = []\<rparr>"
proof -
  have h: "(0::nat) < 5" "\<forall>k<0. getService (healthy st) k = None"
    "getService (healthy st) 0 = Some 1"
    by (simp_all add: healthy_def)
  show ?thesis
    by (simp add: BatteryListenerImpl_def init_found[OF _ h]) (simp add: blank_def healthy_def)
qed

lemmas step_defs =
  worker_step_def loop_head_def default_case_def healthInfoChanged_def GRACE_MS_def

lemma charging_listener_eq:
  "charging_listener =
     \<lparr>mHealth = Some 1, mStatus = CHARGING, mCb = 7, mThread = Some (InWait CHARGING),
      mDone = False, now = 0,
      calls = [GetService, GetChargeStatus 1, RegisterCallback 1, LinkToDeath 1],
      emitted = []\<rparr>"
  by (simp add: charging_listener_def BatteryListenerImpl_healthy step_defs)

text \<open>
  C2 as stated fails. The worker has reported \<open>true\<close> for \<open>FULL\<close>; a push update then
  writes \<open>NOT_CHARGING\<close>, which the worker holds back in its grace window. One second
  later the last callback made is still \<open>true\<close>, and \<open>isCharging()\<close> answers \<open>false\<close>.
\<close>

theorem isCharging_last_emission_counterexample:
  "cb_values (run charging_listener [Push FULL, Wake, Push NOT_CHARGING, Wake, Tick 1000])
     = [True]
   \<and> \<not> isCharging (run charging_listener
                       [Push FULL, Wake, Push NOT_CHARGING, Wake, Tick 1000])"
  by (simp add: charging_listener_eq step_defs cb_values_def isCharging_def statusToBool_def)

text \<open>
  C2, amended. \<open>isCharging()\<close> is the boolean of the raw slot \<open>mStatus\<close>: after a push
  update with status \<open>st\<close> it is the boolean of \<open>st\<close>, whether or not the worker has
  passed that status on, and no step of the worker and no passing of time changes it.
\<close>

theorem isCharging_reads_raw_slot:
  "isCharging (healthInfoChanged st l) = statusToBool st
   \<and> isCharging (worker_step l) = isCharging l
   \<and> isCharging (deliver (Tick d) l) = isCharging l"
  by (simp add: isCharging_def step_defs split: option.splits worker.splits BatteryStatus.splits)

subsection \<open>Runs of the worker\<close>

lemma run_append: "run l (xs @ ys) = run (run l xs) ys"
  by (induction xs arbitrary: l) simp_all

lemma worker_step_keeps:
  "now (worker_step l) = now l" "mCb (worker_step l) = mCb l"
  "mStatus (worker_step l) = mStatus l" "mDone (worker_step l) = mDone l"
  by (simp_all add: step_defs split: option.splits worker.splits BatteryStatus.splits)

lemma now_run: "now (run l es) = now l + elapsed es"
proof (induction es arbitrary: l)
  case Nil
  show ?case by simp
next
  case (Cons ev es)
  show ?case
    by (cases ev) (simp_all add: Cons.IH worker_step_keeps healthInfoChanged_def)
qed

lemma ticks_run:
  "\<forall>ev\<in>set es. is_tick ev \<Longrightarrow> run l es = l\<lparr>now := now l + elapsed es\<rparr>"
proof (induction es arbitrary: l)
  case Nil
  show ?case by simp
next
  case (Cons ev es)
  then show ?case by (cases ev) simp_all
qed

lemma settled_deliver:
  assumes "settled l" "\<not> is_push ev"
  shows "settled (deliver ev l) \<and> emitted (deliver ev l) = emitted l
         \<and> mStatus (deliver ev l) = mStatus l"
proof (cases ev)
  case (Push st)
  with assms show ?thesis by simp
next
  case Wake
  with assms show ?thesis
    by (auto simp add: settled_def parked_on_def step_defs)
next
  case (Tick d)
  with assms show ?thesis by (simp add: settled_def parked_on_def)
qed

lemma settled_run:
  "settled l \<Longrightarrow> \<forall>ev\<in>set es. \<not> is_push ev \<Longrightarrow>
     settled (run l es) \<and> emitted (run l es) = emitted l \<and> mStatus (run l es) = mStatus l"
proof (induction es arbitrary: l)
  case Nil
  then show ?case by simp
next
  case (Cons ev es)
  from Cons.prems have q: "\<not> is_push ev" and qs: "\<forall>ev\<in>set es. \<not> is_push ev" by simp_all
  from settled_deliver[OF Cons.prems(1) q] Cons.IH[OF _ qs, of "deliver ev l"]
  show ?case by simp
qed

text \<open>
  Inside the grace window with the status unchanged, a run without push updates
  either has only let time pass, or has made the one callback, at or after the
  deadline, and the worker is settled.
\<close>

lemma grace_run:
  assumes "in_grace ls dl l" "\<forall>ev\<in>set es. \<not> is_push ev"
  shows "run l es = l\<lparr>now := now l + elapsed es\<rparr>
       \<or> (\<exists>t. dl \<le> t \<and> emitted (run l es) = emitted l @ [(mCb l, t, statusToBool ls)]
              \<and> settled (run l es))"
  using assms
proof (induction es arbitrary: l)
  case Nil
  then show ?case by simp
next
  case (Cons ev es)
  from Cons.prems have qs: "\<forall>ev\<in>set es. \<not> is_push ev" by simp
  from Cons.prems(1) have g: "\<not> mDone l" "mThread l = Some (InGrace ls dl)" "mStatus l = ls"
    by (simp_all add: in_grace_def)
  show ?case
  proof (cases ev)
    case (Push st)
    with Cons.prems show ?thesis by simp
  next
    case (Tick d)
    have "in_grace ls dl (l\<lparr>now := now l + d\<rparr>)"
      using Cons.prems(1) by (simp add: in_grace_def)
    from Cons.IH[OF this qs] show ?thesis
      by (simp add: Tick add.assoc)
  next
    case Wake
    show ?thesis
    proof (cases "dl \<le> now l")
      case True
      then have s: "worker_step l = default_case ls l"
        by (simp add: worker_step_def g)
      have "settled (default_case ls l)"
        by (simp add: settled_def parked_on_def default_case_def g)
      from settled_run[OF this qs]
      have "settled (run (default_case ls l) es)"
        "emitted (run (default_case ls l) es) = emitted l @ [(mCb l, now l, statusToBool ls)]"
        by (simp_all add: default_case_def)
      with True show ?thesis
        by (auto simp add: Wake s)
    next
      case False
      then have "worker_step l = l"
        by (simp add: worker_step_def g)
      with Cons.IH[OF Cons.prems(1) qs] show ?thesis
        by (simp add: Wake)
    qed
  qed
qed

text \<open>When the deadline has passed, the next turn of the worker makes the callback.\<close>

lemma grace_fires:
  assumes "in_grace ls dl l" "\<forall>ev\<in>set es2. \<not> is_push ev" "\<forall>ev\<in>set es3. \<not> is_push ev"
    "dl \<le> now l + elapsed es2"
  shows "\<exists>t. dl \<le> t \<and>
           emitted (run l (es2 @ Wake # es3)) = emitted l @ [(mCb l, t, statusToBool ls)]"
proof -
  have q: "\<forall>ev\<in>set (Wake # es3). \<not> is_push ev" using assms(3) by simp
  from grace_run[OF assms(1,2)] show ?thesis
  proof
    assume r: "run l es2 = l\<lparr>now := now l + elapsed es2\<rparr>"
    let ?r = "l\<lparr>now := now l + elapsed es2\<rparr>"
    from assms(1) have g: "\<not> mDone ?r" "mThread ?r = Some (InGrace ls dl)" "mStatus ?r = ls"
      by (simp_all add: in_grace_def)
    have s: "worker_step ?r = default_case ls ?r"
      using assms(4) by (simp add: worker_step_def g)
    have "settled (default_case ls ?r)"
      using g by (simp add: settled_def parked_on_def default_case_def)
    from settled_run[OF this assms(3)]
    have "emitted (run (default_case ls ?r) es3) =
            emitted l @ [(mCb l, now l + elapsed es2, statusToBool ls)]"
      by (simp add: default_case_def)
    then show ?thesis
      using assms(4) by (auto simp add: run_append r s)
  next
    assume "\<exists>t. dl \<le> t \<and> emitted (run l es2) = emitted l @ [(mCb l, t, statusToBool ls)]
              \<and> settled (run l es2)"
    then obtain t where t: "dl \<le> t"
      "emitted (run l es2) = emitted l @ [(mCb l, t, statusToBool ls)]" "settled (run l es2)"
      by blast
    from settled_run[OF t(3) q] t(1,2) show ?thesis
      by (auto simp add: run_append)
  qed
qed

subsection \<open>A \<open>NOT_CHARGING\<close> that stays\<close>

lemma push_not_charging:
  "healthInfoChanged NOT_CHARGING l = l\<lparr>mStatus := NOT_CHARGING\<rparr>"
  by (cases l) (simp add: healthInfoChanged_def)

lemma observe_not_charging:
  assumes "\<not> mDone l" "parked_on ls l" "ls \<noteq> NOT_CHARGING" "mStatus l = NOT_CHARGING"
  shows "worker_step l = l\<lparr>mThread := Some (InGrace NOT_CHARGING (now l + 3000))\<rparr>"
  using assms by (auto simp add: parked_on_def step_defs)

text \<open>
  From the moment the slot holds a \<open>NOT_CHARGING\<close> that the worker has not seen, a run
  without push updates makes no callback, or one callback \<open>false\<close> three seconds or
  more later.
\<close>

lemma unobserved_run:
  assumes "\<not> mDone l" "parked_on ls l" "ls \<noteq> NOT_CHARGING" "mStatus l = NOT_CHARGING"
    "\<forall>ev\<in>set es. \<not> is_push ev"
  shows "\<exists>new. emitted (run l es) = emitted l @ new
           \<and> (new = [] \<or> (\<exists>t. now l + 3000 \<le> t \<and> new = [(mCb l, t, False)]))"
  using assms
proof (induction es arbitrary: l)
  case Nil
  show ?case by simp
next
  case (Cons ev es)
  from Cons.prems have qs: "\<forall>ev\<in>set es. \<not> is_push ev" by simp
  show ?case
  proof (cases ev)
    case (Push st)
    with Cons.prems show ?thesis by simp
  next
    case (Tick d)
    let ?l = "l\<lparr>now := now l + d\<rparr>"
    have "\<not> mDone ?l" "parked_on ls ?l" "mStatus ?l = NOT_CHARGING"
      using Cons.prems by (simp_all add: parked_on_def)
    from Cons.IH[OF this(1,2) Cons.prems(3) this(3) qs]
    obtain new where n: "emitted (run ?l es) = emitted ?l @ new"
      "new = [] \<or> (\<exists>t. now ?l + 3000 \<le> t \<and> new = [(mCb ?l, t, False)])"
      by blast
    from n(2) have "new = [] \<or> (\<exists>t. now l + 3000 \<le> t \<and> new = [(mCb l, t, False)])"
      by auto
    with n(1) show ?thesis by (simp add: Tick)
  next
    case Wake
    let ?g = "l\<lparr>mThread := Some (InGrace NOT_CHARGING (now l + 3000))\<rparr>"
    have s: "worker_step l = ?g"
      by (rule observe_not_charging[OF Cons.prems(1-4)])
    have "in_grace NOT_CHARGING (now l + 3000) ?g"
      using Cons.prems by (simp add: in_grace_def)
    from grace_run[OF this qs] show ?thesis
      by (auto simp add: Wake s statusToBool_def)
  qed
qed

text \<open>
  C6 as stated fails, for two kinds of run. In the first, \<open>NOT_CHARGING\<close> is stored
  before the worker has read the slot for the first time: the worker starts on
  \<open>NOT_CHARGING\<close>, and although the status stays for four seconds, no callback is
  ever made. In the second, the worker sits in the grace window since clock 0; at
  clock 2000 the status goes to \<open>CHARGING\<close> and back to \<open>NOT_CHARGING\<close> before the
  worker has a turn; the callback \<open>false\<close> is made at clock 3000, one second after
  the status became \<open>NOT_CHARGING\<close>.
\<close>

theorem not_charging_held_counterexample:
  "emitted (run (BatteryListenerImpl (healthy CHARGING) 7 blank)
             [Push NOT_CHARGING, Wake, Tick 4000, Wake, Wake]) = []
   \<and> emitted (run charging_listener
               [Push NOT_CHARGING, Wake, Tick 2000, Push CHARGING, Push NOT_CHARGING,
                Tick 1000, Wake]) = [(7, 3000, False)]"
  by (simp add: BatteryListenerImpl_healthy charging_listener_eq step_defs statusToBool_def)

text \<open>
  C6, amended. The worker is in its loop, outside \<open>wait_for\<close>, and the last status it
  has seen is not \<open>NOT_CHARGING\<close>. A push update stores \<open>NOT_CHARGING\<close>, and no later
  push update changes it. However the worker's turns and the passing of time are
  interleaved from then on, the worker makes no callback or one callback, with
  \<open>false\<close>, and not before three seconds have passed. When the worker takes a turn
  (after time \<open>elapsed es1\<close>), three seconds or more pass, and the worker takes another
  turn, it is exactly one callback \<open>false\<close>, made three seconds or more after the
  worker saw the status.
\<close>

theorem not_charging_held_emits_once:
  assumes "\<not> mDone l" "parked_on ls l" "ls \<noteq> NOT_CHARGING"
    and "\<forall>ev\<in>set es1. is_tick ev"
    and "\<forall>ev\<in>set es2. \<not> is_push ev" "3000 \<le> elapsed es2"
    and "\<forall>ev\<in>set es3. \<not> is_push ev"
  shows "(\<exists>t. now l + elapsed es1 + 3000 \<le> t \<and>
            emitted (run l (Push NOT_CHARGING # es1 @ Wake # es2 @ Wake # es3))
              = emitted l @ [(mCb l, t, False)])
       \<and> (\<forall>es. (\<forall>ev\<in>set es. \<not> is_push ev) \<longrightarrow>
            (\<exists>new. emitted (run l (Push NOT_CHARGING # es)) = emitted l @ new
               \<and> (new = [] \<or> (\<exists>t. now l + 3000 \<le> t \<and> new = [(mCb l, t, False)]))))"
proof
  let ?u = "l\<lparr>mStatus := NOT_CHARGING\<rparr>"
  let ?v = "?u\<lparr>now := now ?u + elapsed es1\<rparr>"
  let ?g = "?v\<lparr>mThread := Some (InGrace NOT_CHARGING (now ?v + 3000))\<rparr>"
  have v: "\<not> mDone ?v" "parked_on ls ?v" "mStatus ?v = NOT_CHARGING"
    using assms(1,2) by (simp_all add: parked_on_def)
  have 1: "run ?u es1 = ?v" by (rule ticks_run[OF assms(4)])
  have 2: "worker_step ?v = ?g" by (rule observe_not_charging[OF v(1,2) assms(3) v(3)])
  have g: "in_grace NOT_CHARGING (now l + elapsed es1 + 3000) ?g"
    using assms(1) by (simp add: in_grace_def)
  have "now l + elapsed es1 + 3000 \<le> now ?g + elapsed es2"
    using assms(6) by simp
  from grace_fires[OF g assms(5,7) this]
  have f: "\<exists>t. now l + elapsed es1 + 3000 \<le> t \<and>
            emitted (run ?g (es2 @ Wake # es3)) = emitted l @ [(mCb l, t, False)]"
    by (simp add: statusToBool_def)
  have "run l (Push NOT_CHARGING # es1 @ Wake # es2 @ Wake # es3)
          = run (run ?u es1) (Wake # es2 @ Wake # es3)"
    by (simp only: run.simps deliver.simps push_not_charging run_append)
  also have "\<dots> = run ?g (es2 @ Wake # es3)"
    unfolding 1 by (simp only: run.simps deliver.simps 2)
  finally show "\<exists>t. now l + elapsed es1 + 3000 \<le> t \<and>
            emitted (run l (Push NOT_CHARGING # es1 @ Wake # es2 @ Wake # es3))
              = emitted l @ [(mCb l, t, False)]"
    using f by simp
next
  let ?u = "l\<lparr>mStatus := NOT_CHARGING\<rparr>"
  have u: "\<not> mDone ?u" "parked_on ls ?u" "mStatus ?u = NOT_CHARGING"
    using assms(1,2) by (simp_all add: parked_on_def)
  show "\<forall>es. (\<forall>ev\<in>set es. \<not> is_push ev) \<longrightarrow>
            (\<exists>new. emitted (run l (Push NOT_CHARGING # es)) = emitted l @ new
               \<and> (new = [] \<or> (\<exists>t. now l + 3000 \<le> t \<and> new = [(mCb l, t, False)])))"
  proof (intro allI impI)
    fix es
    assume "\<forall>ev\<in>set es. \<not> is_push ev"
    from unobserved_run[OF u(1,2) assms(3) u(3) this]
    show "\<exists>new. emitted (run l (Push NOT_CHARGING # es)) = emitted l @ new
               \<and> (new = [] \<or> (\<exists>t. now l + 3000 \<le> t \<and> new = [(mCb l, t, False)]))"
      by (simp add: push_not_charging)
  qed
qed

theorem not_charging_held_emits_once_witness:
  "\<exists>t. 3100 \<le> t \<and>
     emitted (run charging_listener
               (Push NOT_CHARGING # [Tick 100] @ Wake # [Tick 4000] @ Wake # [Wake, Tick 5]))
       = [(7, t, False)]"
proof -
  have h: "\<not> mDone charging_listener" "parked_on CHARGING charging_listener"
    "CHARGING \<noteq> NOT_CHARGING"
    "\<forall>ev\<in>set [Tick 100]. is_tick ev"
    "\<forall>ev\<in>set [Tick 4000]. \<not> is_push ev" "3000 \<le> elapsed [Tick 4000]"
    "\<forall>ev\<in>set [Wake, Tick 5]. \<not> is_push ev"
    by (simp_all add: charging_listener_eq parked_on_def)
  from not_charging_held_emits_once[OF h]
  have "\<exists>t. now charging_listener + elapsed [Tick 100] + 3000 \<le> t \<and>
            emitted (run charging_listener
                      (Push NOT_CHARGING # [Tick 100] @ Wake # [Tick 4000] @ Wake
                             # [Wake, Tick 5]))
              = emitted charging_listener @ [(mCb charging_listener, t, False)]"
    by blast
  moreover have "now charging_listener = 0" "emitted charging_listener = []"
    "mCb charging_listener = 7"
    by (simp_all add: charging_listener_eq)
  ultimately show ?thesis
    by simp
qed

subsection \<open>A \<open>NOT_CHARGING\<close> that goes away\<close>

lemma grace_waits:
  assumes "in_grace ls dl l" "\<forall>ev\<in>set es. \<not> is_push ev" "now l + elapsed es < dl"
  shows "run l es = l\<lparr>now := now l + elapsed es\<rparr>"
  using assms
proof (induction es arbitrary: l)
  case Nil
  show ?case by simp
next
  case (Cons ev es)
  from Cons.prems have qs: "\<forall>ev\<in>set es. \<not> is_push ev" by simp
  from Cons.prems(1) have g: "\<not> mDone l" "mThread l = Some (InGrace ls dl)" "mStatus l = ls"
    by (simp_all add: in_grace_def)
  show ?case
  proof (cases ev)
    case (Push st)
    with Cons.prems show ?thesis by simp
  next
    case (Tick d)
    have "in_grace ls dl (l\<lparr>now := now l + d\<rparr>)"
      using Cons.prems(1) by (simp add: in_grace_def)
    moreover have "now (l\<lparr>now := now l + d\<rparr>) + elapsed es < dl"
      using Cons.prems(3) by (simp add: Tick)
    ultimately show ?thesis
      using Cons.IH[OF _ qs] by (simp add: Tick add.assoc)
  next
    case Wake
    from Cons.prems(3) have "\<not> dl \<le> now l" by (simp add: Wake)
    then have "worker_step l = l"
      by (simp add: worker_step_def g)
    moreover have "now l + elapsed es < dl" using Cons.prems(3) by (simp add: Wake)
    ultimately show ?thesis
      using Cons.IH[OF Cons.prems(1) qs] by (simp add: Wake)
  qed
qed

text \<open>
  While less than three seconds pass after an unseen \<open>NOT_CHARGING\<close>, the worker has
  either not had a turn, or it sits in the grace window; in both cases it has made no
  callback.
\<close>

lemma blip_begins:
  assumes "\<not> mDone l" "parked_on ls l" "ls \<noteq> NOT_CHARGING" "mStatus l = NOT_CHARGING"
    "\<forall>ev\<in>set es. \<not> is_push ev" "elapsed es < 3000"
  shows "(Wake \<notin> set es \<and> run l es = l\<lparr>now := now l + elapsed es\<rparr>)
       \<or> (Wake \<in> set es \<and>
           (\<exists>dl. now l + elapsed es < dl \<and>
              run l es = l\<lparr>now := now l + elapsed es,
                           mThread := Some (InGrace NOT_CHARGING dl)\<rparr>))"
  using assms
proof (induction es arbitrary: l)
  case Nil
  show ?case by simp
next
  case (Cons ev es)
  from Cons.prems have qs: "\<forall>ev\<in>set es. \<not> is_push ev" by simp
  show ?case
  proof (cases ev)
    case (Push st)
    with Cons.prems show ?thesis by simp
  next
    case (Tick d)
    let ?l = "l\<lparr>now := now l + d\<rparr>"
    have "\<not> mDone ?l" "parked_on ls ?l" "mStatus ?l = NOT_CHARGING" "elapsed es < 3000"
      using Cons.prems by (simp_all add: parked_on_def Tick)
    from Cons.IH[OF this(1,2) Cons.prems(3) this(3) qs this(4)]
    show ?thesis by (simp add: Tick add.assoc)
  next
    case Wake
    let ?g = "l\<lparr>mThread := Some (InGrace NOT_CHARGING (now l + 3000))\<rparr>"
    have s: "worker_step l = ?g"
      by (rule observe_not_charging[OF Cons.prems(1-4)])
    have g: "in_grace NOT_CHARGING (now l + 3000) ?g"
      using Cons.prems by (simp add: in_grace_def)
    have "now ?g + elapsed es < now l + 3000"
      using Cons.prems(6) by (simp add: Wake)
    from grace_waits[OF g qs this]
    have "run ?g es = l\<lparr>now := now l + elapsed es,
                         mThread := Some (InGrace NOT_CHARGING (now l + 3000))\<rparr>"
      by simp
    moreover have "now l + elapsed es < now l + 3000"
      using Cons.prems(6) by (simp add: Wake)
    ultimately have "\<exists>dl. now l + elapsed es < dl \<and>
        run ?g es = l\<lparr>now := now l + elapsed es, mThread := Some (InGrace NOT_CHARGING dl)\<rparr>"
      by blast
    then show ?thesis
      by (simp add: Wake s)
  qed
qed

text \<open>
  The status has gone back to \<open>CHARGING\<close> while the worker sat in the grace window:
  the next turn of the worker leaves the window and reports \<open>CHARGING\<close>.
\<close>

lemma blip_ends:
  assumes "\<not> mDone l" "mThread l = Some (InGrace NOT_CHARGING dl)" "mStatus l = CHARGING"
    "\<forall>ev\<in>set es. \<not> is_push ev"
  shows "(Wake \<notin> set es \<and> emitted (run l es) = emitted l)
       \<or> (Wake \<in> set es \<and>
           (\<exists>t. now l \<le> t \<and> emitted (run l es) = emitted l @ [(mCb l, t, True)]))"
  using assms
proof (induction es arbitrary: l)
  case Nil
  show ?case by simp
next
  case (Cons ev es)
  from Cons.prems have qs: "\<forall>ev\<in>set es. \<not> is_push ev" by simp
  show ?case
  proof (cases ev)
    case (Push st)
    with Cons.prems show ?thesis by simp
  next
    case (Tick d)
    let ?l = "l\<lparr>now := now l + d\<rparr>"
    have "\<not> mDone ?l" "mThread ?l = Some (InGrace NOT_CHARGING dl)" "mStatus ?l = CHARGING"
      using Cons.prems by simp_all
    from Cons.IH[OF this qs] show ?thesis
      by (auto simp add: Tick)
  next
    case Wake
    have s: "worker_step l = default_case CHARGING l"
      using Cons.prems(1-3) by (simp add: worker_step_def loop_head_def)
    have "settled (default_case CHARGING l)"
      using Cons.prems(1-3) by (simp add: settled_def parked_on_def default_case_def)
    from settled_run[OF this qs]
    have "emitted (run (default_case CHARGING l) es) = emitted l @ [(mCb l, now l, True)]"
      by (simp add: default_case_def statusToBool_def)
    then show ?thesis
      by (auto simp add: Wake s)
  qed
qed

text \<open>
  C3 as stated fails. The worker waits on \<open>CHARGING\<close>; \<open>NOT_CHARGING\<close> is stored and
  the worker enters the grace window; one second later \<open>CHARGING\<close> is stored again.
  The worker leaves the window and calls the callback with \<open>true\<close>: one callback, not
  none.
\<close>

theorem blip_counterexample:
  "emitted (run charging_listener [Push NOT_CHARGING, Wake, Tick 1000, Push CHARGING, Wake])
     = [(7, 1000, True)]"
  by (simp add: charging_listener_eq step_defs statusToBool_def)

text \<open>
  C3, amended. The worker has seen \<open>CHARGING\<close>. \<open>NOT_CHARGING\<close> is stored, and
  \<open>CHARGING\<close> is stored again less than three seconds later. Then \<open>NOT_CHARGING\<close> is
  never reported: no callback \<open>false\<close> is made. The returning \<open>CHARGING\<close> is reported
  by one callback \<open>true\<close> when the worker had a turn during the blip and has one after
  it; otherwise no callback is made at all.
\<close>

theorem blip_is_swallowed:
  assumes "\<not> mDone l" "parked_on CHARGING l" "mStatus l = CHARGING"
    and "\<forall>ev\<in>set mid. \<not> is_push ev" "elapsed mid < 3000"
    and "\<forall>ev\<in>set post. \<not> is_push ev"
  shows "\<exists>t. now l + elapsed mid \<le> t \<and>
           emitted (run l (Push NOT_CHARGING # mid @ Push CHARGING # post))
             = emitted l @
               (if Wake \<in> set mid \<and> Wake \<in> set post then [(mCb l, t, True)] else [])"
proof -
  let ?u = "l\<lparr>mStatus := NOT_CHARGING\<rparr>"
  have u: "\<not> mDone ?u" "parked_on CHARGING ?u" "CHARGING \<noteq> NOT_CHARGING"
    "mStatus ?u = NOT_CHARGING"
    using assms(1,2) by (simp_all add: parked_on_def)
  have r: "run l (Push NOT_CHARGING # mid @ Push CHARGING # post)
             = run (healthInfoChanged CHARGING (run ?u mid)) post"
    by (simp add: push_not_charging run_append)
  from blip_begins[OF u assms(4,5)] show ?thesis
  proof (elim disjE conjE exE)
    assume w: "Wake \<notin> set mid" and m: "run ?u mid = ?u\<lparr>now := now ?u + elapsed mid\<rparr>"
    have "healthInfoChanged CHARGING (run ?u mid) = l\<lparr>now := now l + elapsed mid\<rparr>"
      unfolding m using assms(3) by (cases l) (simp add: healthInfoChanged_def)
    moreover have "settled (l\<lparr>now := now l + elapsed mid\<rparr>)"
      using assms(1-3) by (simp add: settled_def parked_on_def)
    ultimately have "emitted (run (healthInfoChanged CHARGING (run ?u mid)) post) = emitted l"
      using settled_run[OF _ assms(6)] by simp
    then show ?thesis
      unfolding r using w by auto
  next
    fix dl
    assume w: "Wake \<in> set mid" and d: "now ?u + elapsed mid < dl"
      and m: "run ?u mid = ?u\<lparr>now := now ?u + elapsed mid,
                                mThread := Some (InGrace NOT_CHARGING dl)\<rparr>"
    let ?p = "l\<lparr>now := now l + elapsed mid, mThread := Some (InGrace NOT_CHARGING dl)\<rparr>"
    have p: "healthInfoChanged CHARGING (run ?u mid) = ?p"
      unfolding m using assms(3) by (cases l) (simp add: healthInfoChanged_def)
    have "\<not> mDone ?p" "mThread ?p = Some (InGrace NOT_CHARGING dl)" "mStatus ?p = CHARGING"
      using assms(1,3) by simp_all
    from blip_ends[OF this assms(6)] show ?thesis
      unfolding r p using w by auto
  qed
qed

theorem blip_is_swallowed_witness:
  "\<exists>t. 1000 \<le> t \<and>
     emitted (run charging_listener
               (Push NOT_CHARGING # [Wake, Tick 1000] @ Push CHARGING # [Tick 20, Wake, Wake]))
       = [(7, t, True)]"
proof -
  have h: "\<not> mDone charging_listener" "parked_on CHARGING charging_listener"
    "mStatus charging_listener = CHARGING"
    "\<forall>ev\<in>set [Wake, Tick 1000]. \<not> is_push ev" "elapsed [Wake, Tick 1000] < 3000"
    "\<forall>ev\<in>set [Tick 20, Wake, Wake]. \<not> is_push ev"
    by (simp_all add: charging_listener_eq parked_on_def)
  have c: "now charging_listener = 0" "emitted charging_listener = []"
    "mCb charging_listener = 7"
    by (simp_all add: charging_listener_eq)
  from blip_is_swallowed[OF h]
  have "\<exists>t. now charging_listener + elapsed [Wake, Tick 1000] \<le> t \<and>
           emitted (run charging_listener
               (Push NOT_CHARGING # [Wake, Tick 1000] @ Push CHARGING # [Tick 20, Wake, Wake]))
             = emitted charging_listener @
               (if Wake \<in> set [Wake, Tick 1000] \<and> Wake \<in> set [Tick 20, Wake, Wake]
                then [(mCb charging_listener, t, True)] else [])" .
  then show ?thesis
    by (simp add: c)
qed

subsection \<open>When the worker calls back\<close>

lemma deliver_emits:
  assumes "emitted (deliver ev s) \<noteq> emitted s"
  shows "ev = Wake
       \<and> emitted (deliver ev s) = emitted s @ [(mCb s, now s, statusToBool (mStatus s))]
       \<and> ((\<exists>w ls. mThread s = Some w \<and> seen w = Some ls \<and> ls \<noteq> mStatus s
              \<and> mStatus s \<noteq> NOT_CHARGING)
          \<or> (\<exists>dl. mThread s = Some (InGrace (mStatus s) dl) \<and> dl \<le> now s))"
proof (cases ev)
  case (Push st)
  with assms show ?thesis by (simp add: healthInfoChanged_def split: if_splits)
next
  case (Tick d)
  with assms show ?thesis by simp
next
  case Wake
  show ?thesis
  proof (cases "mThread s")
    case None
    with assms Wake show ?thesis by (simp add: worker_step_def)
  next
    case (Some w)
    with assms Wake show ?thesis
      by (cases w; cases "mStatus s")
         (auto simp add: step_defs split: if_splits)
  qed
qed

text \<open>
  An event after which the worker is inside \<open>wait_for\<close> found it there, or is the turn
  in which the worker saw \<open>NOT_CHARGING\<close> and set the deadline three seconds ahead.
\<close>

lemma grace_entry:
  assumes "mThread (deliver ev s) = Some (InGrace ls dl)"
  shows "mThread s = Some (InGrace ls dl)
       \<or> (ev = Wake \<and> ls = NOT_CHARGING \<and> dl = now s + 3000 \<and> mStatus s = NOT_CHARGING
          \<and> (\<exists>w ls'. mThread s = Some w \<and> seen w = Some ls' \<and> ls' \<noteq> NOT_CHARGING))"
proof (cases ev)
  case (Push st)
  with assms show ?thesis by (simp add: healthInfoChanged_def split: if_splits)
next
  case (Tick d)
  with assms show ?thesis by simp
next
  case Wake
  show ?thesis
  proof (cases "mThread s")
    case None
    with assms Wake show ?thesis by (simp add: worker_step_def)
  next
    case (Some w)
    with assms Wake show ?thesis
      by (cases w; cases "mStatus s")
         (auto simp add: step_defs split: if_splits)
  qed
qed

text \<open>
  In a run that does not begin inside \<open>wait_for\<close>, a worker found inside \<open>wait_for\<close>
  waits on \<open>NOT_CHARGING\<close>; it entered in an earlier turn of the run, in which it saw
  \<open>NOT_CHARGING\<close> after another status and set the deadline three seconds ahead, and
  it has stayed there since.
\<close>

lemma grace_history:
  assumes "\<not> in_wait_for l"
  shows "mThread (run l es) = Some (InGrace ls dl) \<Longrightarrow>
     ls = NOT_CHARGING
     \<and> (\<exists>es_a es_b. es = es_a @ Wake # es_b
          \<and> dl = now (run l es_a) + 3000
          \<and> mStatus (run l es_a) = NOT_CHARGING
          \<and> (\<exists>w ls'. mThread (run l es_a) = Some w \<and> seen w = Some ls' \<and> ls' \<noteq> NOT_CHARGING)
          \<and> (\<forall>k\<le>length es_b.
                mThread (run l (es_a @ Wake # take k es_b)) = Some (InGrace NOT_CHARGING dl)))"
proof (induction es arbitrary: ls dl rule: rev_induct)
  case Nil
  with assms show ?case by (simp add: in_wait_for_def)
next
  case (snoc ev es)
  have r: "run l (es @ [ev]) = deliver ev (run l es)"
    by (simp add: run_append)
  from snoc.prems have now_in: "mThread (deliver ev (run l es)) = Some (InGrace ls dl)"
    by (simp add: r)
  from grace_entry[OF now_in] show ?case
  proof
    assume before: "mThread (run l es) = Some (InGrace ls dl)"
    from snoc.IH[OF before] obtain es_a es_b where h: "ls = NOT_CHARGING"
      "es = es_a @ Wake # es_b" "dl = now (run l es_a) + 3000"
      "mStatus (run l es_a) = NOT_CHARGING"
      "\<exists>w ls'. mThread (run l es_a) = Some w \<and> seen w = Some ls' \<and> ls' \<noteq> NOT_CHARGING"
      "\<forall>k\<le>length es_b.
          mThread (run l (es_a @ Wake # take k es_b)) = Some (InGrace NOT_CHARGING dl)"
      by blast
    have stay: "\<forall>k\<le>length (es_b @ [ev]).
        mThread (run l (es_a @ Wake # take k (es_b @ [ev]))) = Some (InGrace NOT_CHARGING dl)"
    proof (intro allI impI)
      fix k
      assume k: "k \<le> length (es_b @ [ev])"
      show "mThread (run l (es_a @ Wake # take k (es_b @ [ev])))
              = Some (InGrace NOT_CHARGING dl)"
      proof (cases "k \<le> length es_b")
        case True
        then show ?thesis using h(6) by simp
      next
        case False
        with k have tk: "take k (es_b @ [ev]) = es_b @ [ev]" by simp
        have eq: "es_a @ Wake # (es_b @ [ev]) = es @ [ev]" by (simp add: h(2))
        show ?thesis
          unfolding tk eq using snoc.prems h(1) by simp
      qed
    qed
    have "es @ [ev] = es_a @ Wake # (es_b @ [ev])" by (simp add: h(2))
    with h(1,3,4,5) stay show ?thesis by blast
  next
    assume entry: "ev = Wake \<and> ls = NOT_CHARGING \<and> dl = now (run l es) + 3000
      \<and> mStatus (run l es) = NOT_CHARGING
      \<and> (\<exists>w ls'. mThread (run l es) = Some w \<and> seen w = Some ls' \<and> ls' \<noteq> NOT_CHARGING)"
    have stay: "\<forall>k\<le>length ([]::event list).
        mThread (run l (es @ Wake # take k [])) = Some (InGrace NOT_CHARGING dl)"
      using snoc.prems entry by simp
    have "es @ [ev] = es @ Wake # []" using entry by simp
    with entry stay show ?thesis by blast
  qed
qed

text \<open>
  C1 as stated fails. The worker waits on \<open>CHARGING\<close>; \<open>FULL\<close> is stored and the
  worker calls back with \<open>true\<close>; \<open>CHARGING\<close> is stored and the worker calls back with
  \<open>true\<close> again: two consecutive callbacks with the same boolean.
\<close>

theorem consecutive_same_boolean_counterexample:
  "cb_values (run charging_listener [Push FULL, Wake, Wake, Push CHARGING, Wake])
     = [True, True]"
  by (simp add: charging_listener_eq step_defs cb_values_def statusToBool_def)

text \<open>
  C1, amended. Take any run that does not begin inside \<open>wait_for\<close>. An event that
  adds a callback is a turn of the worker, it adds one callback, and the argument is
  the boolean of the stored status (\<open>CHARGING\<close> or \<open>FULL\<close>: true, otherwise false).
  It happens in two cases only. Either the stored status is not \<open>NOT_CHARGING\<close> and
  differs from the raw status the worker saw last. Or the stored status is
  \<open>NOT_CHARGING\<close>, and the worker saw \<open>NOT_CHARGING\<close> after another status in an
  earlier turn of the run, has stayed in \<open>wait_for\<close> since that turn, and three
  seconds or more have passed since that turn. The worker compares raw statuses; it
  keeps no boolean of its last callback.
\<close>

theorem worker_emits_on_raw_change:
  assumes "\<not> in_wait_for l"
    and "emitted (run l (es @ [ev])) \<noteq> emitted (run l es)"
  shows "ev = Wake
       \<and> emitted (run l (es @ [ev])) =
           emitted (run l es) @
             [(mCb (run l es), now (run l es), statusToBool (mStatus (run l es)))]
       \<and> ((mStatus (run l es) \<noteq> NOT_CHARGING
            \<and> (\<exists>w ls. mThread (run l es) = Some w \<and> seen w = Some ls
                  \<and> ls \<noteq> mStatus (run l es)))
          \<or> (mStatus (run l es) = NOT_CHARGING
            \<and> (\<exists>es_a es_b dl. es = es_a @ Wake # es_b
                  \<and> 3000 \<le> elapsed es_b
                  \<and> mStatus (run l es_a) = NOT_CHARGING
                  \<and> (\<exists>w ls. mThread (run l es_a) = Some w \<and> seen w = Some ls
                        \<and> ls \<noteq> NOT_CHARGING)
                  \<and> (\<forall>k\<le>length es_b.
                        mThread (run l (es_a @ Wake # take k es_b))
                          = Some (InGrace NOT_CHARGING dl)))))"
proof -
  let ?s = "run l es"
  have r: "run l (es @ [ev]) = deliver ev ?s"
    by (simp add: run_append)
  from assms(2) have "emitted (deliver ev ?s) \<noteq> emitted ?s"
    by (simp add: r)
  from deliver_emits[OF this]
  have ev: "ev = Wake"
    and em: "emitted (deliver ev ?s) = emitted ?s @ [(mCb ?s, now ?s, statusToBool (mStatus ?s))]"
    and why: "(\<exists>w ls. mThread ?s = Some w \<and> seen w = Some ls \<and> ls \<noteq> mStatus ?s
                 \<and> mStatus ?s \<noteq> NOT_CHARGING)
            \<or> (\<exists>dl. mThread ?s = Some (InGrace (mStatus ?s) dl) \<and> dl \<le> now ?s)"
    by blast+
  from why have cases: "(mStatus ?s \<noteq> NOT_CHARGING
            \<and> (\<exists>w ls. mThread ?s = Some w \<and> seen w = Some ls \<and> ls \<noteq> mStatus ?s))
          \<or> (mStatus ?s = NOT_CHARGING
            \<and> (\<exists>es_a es_b dl. es = es_a @ Wake # es_b
                  \<and> 3000 \<le> elapsed es_b
                  \<and> mStatus (run l es_a) = NOT_CHARGING
                  \<and> (\<exists>w ls. mThread (run l es_a) = Some w \<and> seen w = Some ls
                        \<and> ls \<noteq> NOT_CHARGING)
                  \<and> (\<forall>k\<le>length es_b.
                        mThread (run l (es_a @ Wake # take k es_b))
                          = Some (InGrace NOT_CHARGING dl))))"
  proof
    assume "\<exists>w ls. mThread ?s = Some w \<and> seen w = Some ls \<and> ls \<noteq> mStatus ?s
                 \<and> mStatus ?s \<noteq> NOT_CHARGING"
    then show ?thesis by blast
  next
    assume "\<exists>dl. mThread ?s = Some (InGrace (mStatus ?s) dl) \<and> dl \<le> now ?s"
    then obtain dl where g: "mThread ?s = Some (InGrace (mStatus ?s) dl)" "dl \<le> now ?s"
      by blast
    from grace_history[OF assms(1) g(1)] obtain es_a es_b where h:
      "mStatus ?s = NOT_CHARGING"
      "es = es_a @ Wake # es_b" "dl = now (run l es_a) + 3000"
      "mStatus (run l es_a) = NOT_CHARGING"
      "\<exists>w ls'. mThread (run l es_a) = Some w \<and> seen w = Some ls' \<and> ls' \<noteq> NOT_CHARGING"
      "\<forall>k\<le>length es_b.
          mThread (run l (es_a @ Wake # take k es_b)) = Some (InGrace NOT_CHARGING dl)"
      by blast
    have "now ?s = now (run l es_a) + elapsed es_b"
      unfolding h(2) by (simp add: run_append now_run worker_step_keeps)
    with g(2) h(3) have "3000 \<le> elapsed es_b" by simp
    with h show ?thesis by blast
  qed
  show ?thesis
    unfolding r using ev em cases by blast
qed

theorem worker_emits_on_raw_change_witness:
  "emitted (run charging_listener ([Push FULL] @ [Wake])) = [(7, 0, True)]
   \<and> emitted (run charging_listener ([Push NOT_CHARGING, Wake, Tick 3000] @ [Wake]))
       = [(7, 3000, False)]
   \<and> (\<exists>es_a es_b dl. [Push NOT_CHARGING, Wake, Tick 3000] = es_a @ Wake # es_b
         \<and> 3000 \<le> elapsed es_b
         \<and> mStatus (run charging_listener es_a) = NOT_CHARGING
         \<and> (\<exists>w ls. mThread (run charging_listener es_a) = Some w \<and> seen w = Some ls
               \<and> ls \<noteq> NOT_CHARGING)
         \<and> (\<forall>k\<le>length es_b.
               mThread (run charging_listener (es_a @ Wake # take k es_b))
                 = Some (InGrace NOT_CHARGING dl)))"
proof -
  let ?f = "run charging_listener [Push FULL]"
  let ?n = "run charging_listener [Push NOT_CHARGING, Wake, Tick 3000]"
  have w: "\<not> in_wait_for charging_listener"
    by (simp add: charging_listener_eq in_wait_for_def)
  have f: "mCb ?f = 7" "now ?f = 0" "mStatus ?f = FULL" "emitted ?f = []"
    by (simp_all add: charging_listener_eq step_defs)
  have n: "mCb ?n = 7" "now ?n = 3000" "mStatus ?n = NOT_CHARGING" "emitted ?n = []"
    by (simp_all add: charging_listener_eq step_defs)
  have hf: "emitted (run charging_listener ([Push FULL] @ [Wake])) \<noteq> emitted ?f"
    by (simp add: charging_listener_eq step_defs)
  have hn: "emitted (run charging_listener ([Push NOT_CHARGING, Wake, Tick 3000] @ [Wake]))
              \<noteq> emitted ?n"
    by (simp add: charging_listener_eq step_defs)
  from worker_emits_on_raw_change[OF w hf]
  have 1: "emitted (run charging_listener ([Push FULL] @ [Wake])) =
             emitted ?f @ [(mCb ?f, now ?f, statusToBool (mStatus ?f))]"
    by blast
  from worker_emits_on_raw_change[OF w hn]
  have 2: "emitted (run charging_listener ([Push NOT_CHARGING, Wake, Tick 3000] @ [Wake])) =
             emitted ?n @ [(mCb ?n, now ?n, statusToBool (mStatus ?n))]"
    and 3: "(mStatus ?n \<noteq> NOT_CHARGING
            \<and> (\<exists>w ls. mThread ?n = Some w \<and> seen w = Some ls \<and> ls \<noteq> mStatus ?n))
          \<or> (mStatus ?n = NOT_CHARGING
            \<and> (\<exists>es_a es_b dl. [Push NOT_CHARGING, Wake, Tick 3000] = es_a @ Wake # es_b
                  \<and> 3000 \<le> elapsed es_b
                  \<and> mStatus (run charging_listener es_a) = NOT_CHARGING
                  \<and> (\<exists>w ls. mThread (run charging_listener es_a) = Some w \<and> seen w = Some ls
                        \<and> ls \<noteq> NOT_CHARGING)
                  \<and> (\<forall>k\<le>length es_b.
                        mThread (run charging_listener (es_a @ Wake # take k es_b))
                          = Some (InGrace NOT_CHARGING dl))))"
    by blast+
  from 3 n(3) have 4: "\<exists>es_a es_b dl. [Push NOT_CHARGING, Wake, Tick 3000] = es_a @ Wake # es_b
                  \<and> 3000 \<le> elapsed es_b
                  \<and> mStatus (run charging_listener es_a) = NOT_CHARGING
                  \<and> (\<exists>w ls. mThread (run charging_listener es_a) = Some w \<and> seen w = Some ls
                        \<and> ls \<noteq> NOT_CHARGING)
                  \<and> (\<forall>k\<le>length es_b.
                        mThread (run charging_listener (es_a @ Wake # take k es_b))
                          = Some (InGrace NOT_CHARGING dl))"
    by blast
  have 5: "emitted (run charging_listener ([Push FULL] @ [Wake])) = [(7, 0, True)]"
    unfolding 1 f by (simp add: statusToBool_def)
  have 6: "emitted (run charging_listener ([Push NOT_CHARGING, Wake, Tick 3000] @ [Wake]))
             = [(7, 3000, False)]"
    unfolding 2 n by (simp add: statusToBool_def)
  from 4 5 6 show ?thesis by blast
qed

subsection \<open>Start and stop of the facade\<close>

lemma started_globals_reached:
  "run_detached (healthy CHARGING) blank [] []
     (loc_extn_battery_properties_listener_init 7 no_globals) = Returns started_globals"
  by (simp add: loc_extn_battery_properties_listener_init_def no_globals_def run_detached_def
      batteryPropertiesListenerInit_def batteryPropertiesListenerIsCharging_def release_def
      BatteryListenerImpl_healthy isCharging_def statusToBool_def started_globals_def)

lemma started_globals_stopped:
  "loc_extn_battery_properties_listener_deinit started_globals = Returns stopped_globals"
  by (simp add: loc_extn_battery_properties_listener_deinit_def
      batteryPropertiesListenerDeinit_def release_def started_globals_def
      BatteryListenerImpl_healthy destructor_def join_def stopped_globals_def)

text \<open>
  C4 as stated fails. The facade is started, its thread builds the listener, and
  \<open>deinit\<close> returns. The flag \<open>sIsBatteryListened\<close> is still set, and a second \<open>init\<close>
  changes nothing: no thread is created and no listener is built.
\<close>

theorem deinit_then_init_counterexample:
  "run_detached (healthy CHARGING) blank [] []
     (loc_extn_battery_properties_listener_init 7 no_globals) = Returns started_globals
   \<and> loc_extn_battery_properties_listener_deinit started_globals = Returns stopped_globals
   \<and> sIsBatteryListened stopped_globals
   \<and> loc_extn_battery_properties_listener_init 8 stopped_globals = stopped_globals
   \<and> batteryListener stopped_globals = None
   \<and> detached stopped_globals = []"
  by (simp add: started_globals_reached started_globals_stopped)
     (simp add: stopped_globals_def loc_extn_battery_properties_listener_init_def)

text \<open>
  C4, amended. When \<open>deinit()\<close> returns, the listener is gone and the flag
  \<open>sIsBatteryListened\<close> is what it was before. So after an \<open>init\<close> has set the flag, an
  \<open>init(callback)\<close> that follows \<open>deinit()\<close> is a no-op.
\<close>

theorem deinit_keeps_flag:
  assumes "loc_extn_battery_properties_listener_deinit g = Returns g'"
  shows "sIsBatteryListened g' = sIsBatteryListened g
       \<and> batteryListener g' = None
       \<and> detached g' = detached g
       \<and> (sIsBatteryListened g \<longrightarrow> loc_extn_battery_properties_listener_init fn g' = g')"
proof -
  from assms have "g' = g\<lparr>batteryListener := None\<rparr>"
    by (auto simp add: loc_extn_battery_properties_listener_deinit_def
        batteryPropertiesListenerDeinit_def split: outcome.splits)
  then show ?thesis
    by (simp add: loc_extn_battery_properties_listener_init_def)
qed

theorem deinit_keeps_flag_witness:
  "loc_extn_battery_properties_listener_deinit started_globals = Returns stopped_globals
   \<and> sIsBatteryListened stopped_globals
   \<and> batteryListener stopped_globals = None
   \<and> loc_extn_battery_properties_listener_init 8 stopped_globals = stopped_globals"
proof -
  have s: "sIsBatteryListened started_globals" by (simp add: started_globals_def)
  from deinit_keeps_flag[OF started_globals_stopped, of 8] s
  show ?thesis by (simp add: started_globals_stopped)
qed

subsection \<open>The callback at start\<close>

text \<open>
  C9 as stated fails. The slot that \<open>isCharging()\<close> reads is live when it is read. A
  service reports \<open>CHARGING\<close> at init time and a push update stores \<open>DISCHARGING\<close>
  before the read: no callback is made, now or by the worker, which starts on
  \<open>DISCHARGING\<close>. A service reports \<open>DISCHARGING\<close> at init time, the worker starts, a
  push update stores \<open>CHARGING\<close> and the worker reports it before the read: the
  function adds a second callback \<open>true\<close>.
\<close>

theorem init_callback_counterexample:
  "batteryPropertiesListenerInit (healthy CHARGING) blank 7 [Push DISCHARGING] [Wake]
       no_globals
     = Returns (NO_ERROR,
         \<lparr>sIsBatteryListened = False,
          batteryListener =
            Some \<lparr>mHealth = Some 1, mStatus = DISCHARGING, mCb = 7,
                  mThread = Some (InWait DISCHARGING), mDone = False, now = 0,
                  calls = [GetService, GetChargeStatus 1, RegisterCallback 1, LinkToDeath 1],
                  emitted = []\<rparr>,
          detached = []\<rparr>)
   \<and> batteryPropertiesListenerInit (healthy DISCHARGING) blank 7
       [Wake, Push CHARGING, Wake] [] no_globals
     = Returns (NO_ERROR,
         \<lparr>sIsBatteryListened = False,
          batteryListener =
            Some \<lparr>mHealth = Some 1, mStatus = CHARGING, mCb = 7,
                  mThread = Some (InCallback CHARGING), mDone = False, now = 0,
                  calls = [GetService, GetChargeStatus 1, RegisterCallback 1, LinkToDeath 1],
                  emitted = [(7, 0, True), (7, 0, True)]\<rparr>,
          detached = []\<rparr>)"
  by (simp add: batteryPropertiesListenerInit_def batteryPropertiesListenerIsCharging_def
      release_def no_globals_def BatteryListenerImpl_healthy step_defs isCharging_def
      statusToBool_def)

text \<open>
  C9, amended. Called with no listener held, \<open>batteryPropertiesListenerInit\<close> returns,
  and it makes its callback, with \<open>true\<close>, exactly when the status slot holds
  \<open>CHARGING\<close> or \<open>FULL\<close> at the moment \<open>isCharging()\<close> reads it; the callback comes
  after whatever the worker has reported until then. When a handle was found within
  the five attempts and no push update arrives before the callback, the slot holds
  the status read from the service (\<open>UNKNOWN\<close> when the read fails): then a charging
  status gives exactly one callback, with \<open>true\<close>, any other status gives none, and
  the worker adds no callback as long as no push update arrives.
\<close>

theorem init_callback_reads_live_slot:
  assumes "batteryListener g = None"
  shows "\<exists>l. batteryPropertiesListenerInit e raw cb es1 es2 g
               = Returns (NO_ERROR, g\<lparr>batteryListener := Some l\<rparr>)
           \<and> emitted l =
               emitted (run (BatteryListenerImpl e cb raw) (es1 @ es2)) @
               (if statusToBool (mStatus (run (BatteryListenerImpl e cb raw) es1))
                then [(cb, now l, True)] else [])
           \<and> (n < 5 \<and> (\<forall>k<n. getService e k = None) \<and> getService e n = Some h
                \<and> (\<forall>ev\<in>set (es1 @ es2). \<not> is_push ev) \<longrightarrow>
                mStatus l = (case getChargeStatus e of
                               Some (SUCCESS, status) \<Rightarrow> status | _ \<Rightarrow> UNKNOWN)
              \<and> emitted l = emitted raw @
                             (if statusToBool (mStatus l) then [(cb, now l, True)] else [])
              \<and> (\<forall>es. (\<forall>ev\<in>set es. \<not> is_push ev) \<longrightarrow> emitted (run l es) = emitted l))"
proof -
  let ?st = "case getChargeStatus e of Some (SUCCESS, status) \<Rightarrow> status | _ \<Rightarrow> UNKNOWN"
  let ?b = "BatteryListenerImpl e cb raw"
  let ?r1 = "run ?b es1"
  let ?r2 = "run ?b (es1 @ es2)"
  let ?l = "if isCharging ?r1 then ?r2\<lparr>emitted := emitted ?r2 @ [(cb, now ?r2, isCharging ?r1)]\<rparr>
            else ?r2"
  have 1: "batteryPropertiesListenerInit e raw cb es1 es2 g
             = Returns (NO_ERROR, g\<lparr>batteryListener := Some ?l\<rparr>)"
    by (simp add: batteryPropertiesListenerInit_def batteryPropertiesListenerIsCharging_def
        release_def assms Let_def run_append)
  have 2: "emitted ?l = emitted ?r2 @
             (if statusToBool (mStatus ?r1) then [(cb, now ?l, True)] else [])"
    by (simp add: isCharging_def)
  have 3: "mStatus ?l = ?st
         \<and> emitted ?l = emitted raw @
              (if statusToBool (mStatus ?l) then [(cb, now ?l, True)] else [])
         \<and> (\<forall>es. (\<forall>ev\<in>set es. \<not> is_push ev) \<longrightarrow> emitted (run ?l es) = emitted ?l)"
    if found: "n < 5" "\<forall>k<n. getService e k = None" "getService e n = Some h"
      and quiet: "\<forall>ev\<in>set (es1 @ es2). \<not> is_push ev"
  proof -
    have b: "?b = raw\<lparr>mHealth := Some h, mStatus := ?st, mCb := cb, mThread := Some Starting,
        mDone := False, now := now raw + 500 * n,
        calls := calls raw @ concat (replicate n [GetService, Usleep 500000]) @
                 [GetService, GetChargeStatus h, RegisterCallback h, LinkToDeath h]\<rparr>"
      by (simp add: BatteryListenerImpl_def init_found[OF _ found])
    have f: "mStatus ?b = ?st" "emitted ?b = emitted raw"
      by (simp_all add: b)
    have sb: "settled ?b"
      by (simp add: settled_def b)
    have q1: "\<forall>ev\<in>set es1. \<not> is_push ev" using quiet by simp
    from settled_run[OF sb q1] have r1: "mStatus ?r1 = ?st" by (simp add: f)
    from settled_run[OF sb quiet]
    have r2: "settled ?r2" "emitted ?r2 = emitted raw" "mStatus ?r2 = ?st"
      by (simp_all add: f)
    have sl: "settled ?l"
      using r2(1) by (simp add: settled_def parked_on_def)
    have ml: "mStatus ?l = ?st" by (simp add: r2)
    have el: "emitted ?l = emitted raw @
              (if statusToBool (mStatus ?l) then [(cb, now ?l, True)] else [])"
      unfolding ml by (simp add: isCharging_def r1 r2)
    from ml el settled_run[OF sl] show ?thesis by blast
  qed
  from 1 2 3 show ?thesis by blast
qed

theorem init_callback_reads_live_slot_witness:
  "(\<exists>l. batteryPropertiesListenerInit (healthy FULL) blank 7 [Wake] [Tick 3] no_globals
           = Returns (NO_ERROR, no_globals\<lparr>batteryListener := Some l\<rparr>)
       \<and> mStatus l = FULL \<and> emitted l = [(7, now l, True)])
   \<and> (\<exists>l. batteryPropertiesListenerInit (healthy DISCHARGING) blank 7 [Wake] [Tick 3]
             no_globals
           = Returns (NO_ERROR, no_globals\<lparr>batteryListener := Some l\<rparr>)
       \<and> mStatus l = DISCHARGING \<and> emitted l = [])"
proof -
  have g: "batteryListener no_globals = None" by (simp add: no_globals_def)
  have h: "(0::nat) < 5 \<and> (\<forall>k<0. getService (healthy st) k = None)
      \<and> getService (healthy st) 0 = Some 1
      \<and> (\<forall>ev\<in>set ([Wake] @ [Tick 3]). \<not> is_push ev)" for st
    by (simp add: healthy_def)
  have c: "(case getChargeStatus (healthy st) of
              Some (SUCCESS, status) \<Rightarrow> status | _ \<Rightarrow> UNKNOWN) = st" for st
    by (simp add: healthy_def)
  have e: "emitted blank = []" by (simp add: blank_def)
  from init_callback_reads_live_slot
    [OF g, where e = "healthy FULL" and raw = blank and cb = 7 and ?es1.0 = "[Wake]"
       and ?es2.0 = "[Tick 3]" and n = 0 and h = 1] h[of FULL]
  have 1: "\<exists>l. batteryPropertiesListenerInit (healthy FULL) blank 7 [Wake] [Tick 3] no_globals
           = Returns (NO_ERROR, no_globals\<lparr>batteryListener := Some l\<rparr>)
       \<and> mStatus l = FULL \<and> emitted l = [(7, now l, True)]"
    unfolding c e by (auto simp add: statusToBool_def)
  from init_callback_reads_live_slot
    [OF g, where e = "healthy DISCHARGING" and raw = blank and cb = 7 and ?es1.0 = "[Wake]"
       and ?es2.0 = "[Tick 3]" and n = 0 and h = 1] h[of DISCHARGING]
  have 2: "\<exists>l. batteryPropertiesListenerInit (healthy DISCHARGING) blank 7 [Wake] [Tick 3]
             no_globals
           = Returns (NO_ERROR, no_globals\<lparr>batteryListener := Some l\<rparr>)
       \<and> mStatus l = DISCHARGING \<and> emitted l = []"
    unfolding c e by (auto simp add: statusToBool_def)
  from 1 2 show ?thesis by blast
qed

end
